theory Spec2Isabelle
  imports Main "HOL-Library.Word"
begin

section \<open>The waitgroup package\<close>

text \<open>
  A sequential model of \<^verbatim>\<open>waitgroup.go\<close>. Each method of \<^verbatim>\<open>*WaitGroup\<close> takes the
  group and returns the updated one; a panic is the left summand of the result and ends
  the run. The two mutexes only serialise the method bodies, so each body is one atomic
  step of the model and the mutex fields are left out.

  Go's \<^verbatim>\<open>int\<close> is the 64-bit integer of a 64-bit platform: a \<open>64 word\<close>, read as a
  signed number by \<open>sint\<close>, whose \<open>+\<close> and \<open>-\<close> wrap around as Go's do.
\<close>

subsection \<open>Formatting: the verbs of \<^verbatim>\<open>fmt\<close> that the package uses\<close>

text \<open>\<^verbatim>\<open>%d\<close> prints an integer in decimal, with a minus sign when it is negative.\<close>

function digits :: "nat \<Rightarrow> string" where
  "digits n = (if n < 10 then [''0123456789'' ! n]
               else digits (n div 10) @ [''0123456789'' ! (n mod 10)])"
  by pat_completeness auto
termination
  by (relation "measure id") auto

declare digits.simps [simp del]

definition fmt_d :: "int \<Rightarrow> string" where
  "fmt_d n = (if n < 0 then CHR ''-'' # digits (nat (- n)) else digits (nat n))"

subsection \<open>Options and the logger\<close>

text \<open>
  \<^verbatim>\<open>Options.Logger\<close> is an \<^verbatim>\<open>io.Writer\<close>; the model keeps what has been written to
  it, one element for each call of \<^verbatim>\<open>Log\<close>. \<^verbatim>\<open>Log\<close> receives the text that
  \<^verbatim>\<open>fmt.Fprintf\<close> makes of the pattern and its arguments.
\<close>

record Options =
  Logger :: "string list"

definition Log :: "string \<Rightarrow> Options \<Rightarrow> Options" where
  "Log s opts = opts\<lparr>Logger := Logger opts @ [s]\<rparr>"

subsection \<open>The counter of \<^verbatim>\<open>sync.WaitGroup\<close>\<close>

text \<open>
  \<^verbatim>\<open>sync.WaitGroup\<close> keeps its counter in the upper 32 bits of a 64-bit state and
  reads it as an \<^verbatim>\<open>int32\<close>. \<^verbatim>\<open>Add(delta)\<close> adds \<^verbatim>\<open>uint64(delta) << 32\<close> to
  the state, so the lower 32 bits of \<^verbatim>\<open>delta\<close> are added to the counter, and the
  sum wraps around at 32 bits; \<^verbatim>\<open>Add\<close> then panics if the counter it reads is
  negative. \<^verbatim>\<open>Done\<close> is \<^verbatim>\<open>Add(-1)\<close>. The lower half of the state counts the
  goroutines that wait; it is zero in a sequential run, where the other panic of
  \<^verbatim>\<open>Add\<close>, for a call concurrent with \<^verbatim>\<open>Wait\<close>, cannot happen. The counter cannot be
  read from outside.
\<close>

datatype panic = NegativeCounter

definition sync_Add :: "64 word \<Rightarrow> 32 word \<Rightarrow> panic + 32 word" where
  "sync_Add delta v =
     (let v' = v + ucast delta in if sint v' < 0 then Inl NegativeCounter else Inr v')"

definition sync_Done :: "32 word \<Rightarrow> panic + 32 word" where
  "sync_Done v = sync_Add (- 1) v"

subsection \<open>WaitGroup\<close>

record WaitGroup =
  wg :: "32 word"
  calls :: "string \<rightharpoonup> 64 word"

definition New :: WaitGroup where
  "New = \<lparr>wg = 0, calls = Map.empty\<rparr>"

text \<open>
  \<^verbatim>\<open>Add\<close> asks \<^verbatim>\<open>runtime.Caller(1)\<close> for the file and the line of its caller; the
  model takes them as arguments. \<^verbatim>\<open>w.calls[key] += i\<close> reads the zero value for a
  key that is not in the map and stores the sum, which wraps around at 64 bits.
\<close>

definition caller_key :: "string \<Rightarrow> int \<Rightarrow> string" where
  "caller_key file line = file @ '':'' @ fmt_d line"

definition Add :: "string \<Rightarrow> int \<Rightarrow> 64 word \<Rightarrow> WaitGroup \<Rightarrow> panic + (string \<times> WaitGroup)" where
  "Add file line i w =
     (let key = caller_key file line in
      case sync_Add i (wg w) of
        Inl e \<Rightarrow> Inl e
      | Inr v \<Rightarrow>
          Inr (key, w\<lparr>wg := v,
                      calls := (calls w)(key \<mapsto> (case calls w key of None \<Rightarrow> 0 | Some n \<Rightarrow> n) + i)\<rparr>))"

definition Done :: "string \<Rightarrow> WaitGroup \<Rightarrow> panic + WaitGroup" where
  "Done key w =
     (case sync_Done (wg w) of
        Inl e \<Rightarrow> Inl e
      | Inr v \<Rightarrow>
          (case calls w key of
             None \<Rightarrow> Inr (w\<lparr>wg := v\<rparr>)
           | Some n \<Rightarrow>
               if sint (n - 1) \<le> 0 then Inr (w\<lparr>wg := v, calls := (calls w)(key := None)\<rparr>)
               else Inr (w\<lparr>wg := v, calls := (calls w)(key \<mapsto> n - 1)\<rparr>)))"

text \<open>
  \<^verbatim>\<open>LogNotDone\<close>. Go visits the entries of a map in an order it does not specify; the
  model takes the order \<open>ks\<close> of the visit as an argument, and \<open>range_order\<close> says
  that \<open>ks\<close> is such an order: every key of the map once.
\<close>

definition header :: string where
  "header = CHR 0x0A # ''WaitGroup currently waiting on:'' @ [CHR 0x0A]"

definition entry_line :: "string \<Rightarrow> int \<Rightarrow> string" where
  "entry_line key n = '' '' @ key @ '' ('' @ fmt_d n @ '' outstanding)'' @ [CHR 0x0A]"

fun log_entries :: "(string \<rightharpoonup> 64 word) \<Rightarrow> string list \<Rightarrow> Options \<Rightarrow> Options" where
  "log_entries m [] opts = opts"
| "log_entries m (key # ks) opts =
     log_entries m ks
       (case m key of None \<Rightarrow> opts | Some n \<Rightarrow> Log (entry_line key (sint n)) opts)"

definition range_order :: "(string \<rightharpoonup> 64 word) \<Rightarrow> string list \<Rightarrow> bool" where
  "range_order m ks \<longleftrightarrow> distinct ks \<and> set ks = dom m"

definition LogNotDone :: "string list \<Rightarrow> WaitGroup \<Rightarrow> Options \<Rightarrow> WaitGroup \<times> Options" where
  "LogNotDone ks w opts =
     (if dom (calls w) = {} then (w, opts)
      else (w, log_entries (calls w) ks (Log header opts)))"

subsection \<open>Runs of \<^verbatim>\<open>Add\<close> and \<^verbatim>\<open>Done\<close>\<close>

text \<open>
  A run is a list of calls made on one group, stopped by the first panic. \<open>net\<close> is
  the sum of the counts given to \<^verbatim>\<open>Add\<close> minus the number of calls of \<^verbatim>\<open>Done\<close>, and
  \<open>added\<close> the sum of the counts alone, both as mathematical integers.
\<close>

datatype op = OpAdd string int "64 word" | OpDone string

fun step :: "op \<Rightarrow> WaitGroup \<Rightarrow> panic + WaitGroup" where
  "step (OpAdd file line i) w =
     (case Add file line i w of Inl e \<Rightarrow> Inl e | Inr (key, w') \<Rightarrow> Inr w')"
| "step (OpDone key) w = Done key w"

fun run :: "op list \<Rightarrow> WaitGroup \<Rightarrow> panic + WaitGroup" where
  "run [] w = Inr w"
| "run (x # xs) w = (case step x w of Inl e \<Rightarrow> Inl e | Inr w' \<Rightarrow> run xs w')"

fun delta :: "op \<Rightarrow> int" where
  "delta (OpAdd file line i) = sint i"
| "delta (OpDone key) = - 1"

fun net :: "op list \<Rightarrow> int" where
  "net [] = 0"
| "net (x # xs) = delta x + net xs"

fun added :: "op list \<Rightarrow> int" where
  "added [] = 0"
| "added (OpAdd file line i # xs) = sint i + added xs"
| "added (OpDone key # xs) = added xs"

text \<open>
  The counts that the 32-bit counter takes as they are: those of the range of
  \<^verbatim>\<open>int32\<close>; and the counts that are not below that range.
\<close>

fun count_in_int32 :: "op \<Rightarrow> bool" where
  "count_in_int32 (OpAdd file line i) = (- (2 ^ 31) \<le> sint i \<and> sint i < 2 ^ 31)"
| "count_in_int32 (OpDone key) = True"

fun count_not_below_int32 :: "op \<Rightarrow> bool" where
  "count_not_below_int32 (OpAdd file line i) = (- (2 ^ 31) \<le> sint i)"
| "count_not_below_int32 (OpDone key) = True"

text \<open>The count that the registry holds for a key; a key that is not there has none.\<close>

definition outstanding :: "WaitGroup \<Rightarrow> string \<Rightarrow> 64 word" where
  "outstanding w key = (case calls w key of None \<Rightarrow> 0 | Some n \<Rightarrow> n)"

text \<open>
  The registry's invariant, with a bound on the entries, and the runs in which every
  \<^verbatim>\<open>Add\<close> is given a positive count.
\<close>

fun positive_count :: "op \<Rightarrow> bool" where
  "positive_count (OpAdd file line i) = (0 < sint i)"
| "positive_count (OpDone key) = True"

definition registry_positive :: "WaitGroup \<Rightarrow> bool" where
  "registry_positive w \<longleftrightarrow> (\<forall>key n. calls w key = Some n \<longrightarrow> 0 < sint n)"

definition registry_within :: "int \<Rightarrow> WaitGroup \<Rightarrow> bool" where
  "registry_within b w \<longleftrightarrow> (\<forall>key n. calls w key = Some n \<longrightarrow> 0 < sint n \<and> sint n \<le> b)"

section \<open>Arithmetic of the counter and of the counts\<close>

lemma ucast_scast: "(ucast (i :: 64 word) :: 32 word) = scast i"
  by (rule bit_word_eqI) (simp add: bit_unsigned_iff bit_signed_iff min_def)

lemma sint_add_ucast:
  "sint (v + ucast (i :: 64 word) :: 32 word)
     = (sint v + sint i + 2 ^ 31) mod 2 ^ 32 - 2 ^ 31"
proof -
  have "v + ucast i = (word_of_int (sint v) :: 32 word) + word_of_int (sint i)"
    by (simp add: ucast_scast)
  also have "\<dots> = word_of_int (sint v + sint i)"
    by (simp only: of_int_add)
  finally have "sint (v + ucast i) = signed_take_bit 31 (sint v + sint i)"
    by (simp only: sint_sbintrunc') simp
  then show ?thesis
    by (simp only: signed_take_bit_eq_take_bit_shift take_bit_eq_mod) simp
qed

lemma sint_add_ucast_le:
  assumes "- (2 ^ 31) \<le> sint v + sint (i :: 64 word)"
  shows "sint (v + ucast i :: 32 word) \<le> sint v + sint i"
proof -
  let ?s = "sint v + sint i + 2 ^ 31"
  from assms have "0 \<le> ?s" by simp
  then have "?s mod 2 ^ 32 \<le> ?s" by (rule zmod_le_nonneg_dividend)
  then show ?thesis by (simp add: sint_add_ucast)
qed

lemma sint_add_ucast_eq:
  assumes "- (2 ^ 31) \<le> sint v + sint (i :: 64 word)" "sint v + sint i < 2 ^ 31"
  shows "sint (v + ucast i :: 32 word) = sint v + sint i"
  using assms by (simp add: sint_add_ucast)

lemma mod_once: "(m :: int) \<le> a \<Longrightarrow> a < 2 * m \<Longrightarrow> a mod m = a - m"
proof -
  assume a: "m \<le> a" "a < 2 * m"
  have "a mod m = (a - m) mod m" by (rule minus_mod_self2 [symmetric])
  also from a have "\<dots> = a - m" by (intro mod_pos_pos_trivial) simp_all
  finally show ?thesis .
qed

lemma sint_add_ucast_overflow:
  assumes "2 ^ 31 \<le> sint v + sint (i :: 64 word)" "sint v + sint i < 2 ^ 32"
  shows "sint (v + ucast i :: 32 word) < 0"
proof -
  from assms have "(sint v + sint i + 2 ^ 31) mod 2 ^ 32 = sint v + sint i + 2 ^ 31 - 2 ^ 32"
    by (intro mod_once) simp_all
  with assms show ?thesis by (simp add: sint_add_ucast)
qed

lemma ucast_minus_one: "(ucast (- 1 :: 64 word) :: 32 word) = - 1"
  by (simp add: ucast_scast)

lemma sint_dec_32: "0 \<le> sint (v :: 32 word) \<Longrightarrow> sint (v - 1) = sint v - 1"
  using sint_add_ucast_eq [of v "- 1"] sint_lt [of v] by (simp add: ucast_minus_one)

lemma sint_dec_64: "0 < sint (n :: 64 word) \<Longrightarrow> sint (n - 1) = sint n - 1"
proof -
  assume p: "0 < sint n"
  have "n - 1 = word_of_int (sint n) + word_of_int (- 1)" by simp
  also have "\<dots> = word_of_int (sint n - 1)" by (simp only: of_int_add [symmetric]) simp
  finally have "sint (n - 1) = signed_take_bit 63 (sint n - 1)"
    by (simp only: sint_sbintrunc') simp
  moreover from p sint_lt [of n] have "- (2 ^ 63) \<le> sint n - 1 \<and> sint n - 1 < 2 ^ 63" by simp
  ultimately show ?thesis by (simp add: signed_take_bit_int_eq_self)
qed

lemma sint_add_64:
  "- (2 ^ 63) \<le> sint (a :: 64 word) + sint b \<Longrightarrow> sint a + sint b < 2 ^ 63 \<Longrightarrow>
   sint (a + b) = sint a + sint b"
proof -
  assume r: "- (2 ^ 63) \<le> sint a + sint b" "sint a + sint b < 2 ^ 63"
  have "a + b = word_of_int (sint a) + word_of_int (sint b)" by simp
  also have "\<dots> = word_of_int (sint a + sint b)" by (simp only: of_int_add)
  finally have "sint (a + b) = signed_take_bit 63 (sint a + sint b)"
    by (simp only: sint_sbintrunc') simp
  with r show ?thesis by (simp add: signed_take_bit_int_eq_self)
qed

lemma sync_Done_eq:
  "sync_Done v = (if sint (v - 1) < 0 then Inl NegativeCounter else Inr (v - 1))"
  by (simp add: sync_Done_def sync_Add_def ucast_minus_one)

lemma sync_Done_nonneg:
  "0 \<le> sint v \<Longrightarrow> sync_Done v = (if v = 0 then Inl NegativeCounter else Inr (v - 1))"
proof -
  assume n: "0 \<le> sint v"
  have "sint v = 0 \<longleftrightarrow> v = 0" by (metis signed_0 signed_word_eqI)
  with n sint_dec_32 [OF n] show ?thesis by (auto simp: sync_Done_eq)
qed

section \<open>The counter\<close>

lemma panic_is_NegativeCounter: "(e :: panic) = NegativeCounter"
  by (cases e) simp

lemma step_Inr:
  "step x w = Inr w' \<Longrightarrow>
   0 \<le> sint (wg w') \<and> sint (wg w') = (sint (wg w) + delta x + 2 ^ 31) mod 2 ^ 32 - 2 ^ 31"
proof (cases x)
  case (OpAdd f l i)
  assume "step x w = Inr w'"
  with OpAdd have "wg w' = wg w + ucast i" "\<not> sint (wg w + ucast i) < 0"
    by (auto simp: Add_def sync_Add_def Let_def split: if_splits)
  with OpAdd show ?thesis by (simp add: sint_add_ucast)
next
  case (OpDone key)
  assume "step x w = Inr w'"
  with OpDone have "wg w' = wg w + ucast (- 1 :: 64 word)" "\<not> sint (wg w + ucast (- 1 :: 64 word)) < 0"
    by (auto simp: Done_def sync_Done_def sync_Add_def Let_def split: if_splits option.splits)
  with OpDone sint_add_ucast [of "wg w" "- 1"] show ?thesis by simp
qed

lemma step_bound:
  assumes "0 \<le> sint (wg w)" "count_not_below_int32 x" "step x w = Inr w'"
  shows "0 \<le> sint (wg w') \<and> sint (wg w') \<le> sint (wg w) + delta x"
proof -
  from assms(2) have d: "- (2 ^ 31) \<le> delta x" by (cases x) simp_all
  with assms(1) have "0 \<le> sint (wg w) + delta x + 2 ^ 31" by simp
  then have "(sint (wg w) + delta x + 2 ^ 31) mod 2 ^ 32 \<le> sint (wg w) + delta x + 2 ^ 31"
    by (rule zmod_le_nonneg_dividend)
  with step_Inr [OF assms(3)] show ?thesis by simp
qed

lemma step_exact:
  assumes "0 \<le> sint (wg w)" "count_in_int32 x" "step x w = Inr w'"
  shows "sint (wg w') = sint (wg w) + delta x"
proof -
  let ?s = "sint (wg w) + delta x"
  from assms(2) have "- (2 ^ 31) \<le> delta x \<and> delta x < 2 ^ 31" by (cases x) simp_all
  then have d: "- (2 ^ 31) \<le> delta x" "delta x < 2 ^ 31" by simp_all
  from sint_lt [of "wg w"] have v: "sint (wg w) < 2 ^ 31" by simp
  from step_Inr [OF assms(3)]
  have r: "0 \<le> sint (wg w')" "sint (wg w') = (?s + 2 ^ 31) mod 2 ^ 32 - 2 ^ 31" by simp_all
  show ?thesis
  proof (cases "?s < 2 ^ 31")
    case True
    with d assms(1) r(2) show ?thesis by simp
  next
    case False
    from False d v have "(?s + 2 ^ 31) mod 2 ^ 32 = ?s + 2 ^ 31 - 2 ^ 32"
      by (intro mod_once) simp_all
    with r(2) have "sint (wg w') = ?s - 2 ^ 32" by simp
    with d v r(1) show ?thesis by simp
  qed
qed

lemma run_append:
  "run (xs @ ys) w = (case run xs w of Inl e \<Rightarrow> Inl e | Inr w' \<Rightarrow> run ys w')"
  by (induction xs arbitrary: w) (auto split: sum.splits)

lemma run_bound:
  "list_all count_not_below_int32 xs \<Longrightarrow> 0 \<le> sint (wg w) \<Longrightarrow> run xs w = Inr w' \<Longrightarrow>
   0 \<le> sint (wg w') \<and> sint (wg w') \<le> sint (wg w) + net xs \<and>
   (\<forall>n\<le>length xs. 0 \<le> sint (wg w) + net (take n xs))"
proof (induction xs arbitrary: w)
  case Nil
  then show ?case by simp
next
  case (Cons x xs)
  from Cons.prems(3) obtain w1 where s: "step x w = Inr w1" and r: "run xs w1 = Inr w'"
    by (auto split: sum.splits)
  from Cons.prems(1) have px: "count_not_below_int32 x"
    and pxs: "list_all count_not_below_int32 xs" by simp_all
  from step_bound [OF Cons.prems(2) px s]
  have w1: "0 \<le> sint (wg w1)" "sint (wg w1) \<le> sint (wg w) + delta x" by simp_all
  from Cons.IH [OF pxs w1(1) r]
  have ih: "0 \<le> sint (wg w')" "sint (wg w') \<le> sint (wg w1) + net xs"
    "\<forall>n\<le>length xs. 0 \<le> sint (wg w1) + net (take n xs)" by simp_all
  have "0 \<le> sint (wg w) + net (take n (x # xs))" if "n \<le> length (x # xs)" for n
  proof (cases n)
    case 0
    with Cons.prems(2) show ?thesis by simp
  next
    case (Suc m)
    with that have "m \<le> length xs" by simp
    with ih(3) have "0 \<le> sint (wg w1) + net (take m xs)" by blast
    with w1(2) Suc show ?thesis by simp
  qed
  with ih(1,2) w1(2) show ?case by simp
qed

lemma run_exact:
  "list_all count_in_int32 xs \<Longrightarrow> 0 \<le> sint (wg w) \<Longrightarrow> run xs w = Inr w' \<Longrightarrow>
   0 \<le> sint (wg w') \<and> sint (wg w') = sint (wg w) + net xs"
proof (induction xs arbitrary: w)
  case Nil
  then show ?case by simp
next
  case (Cons x xs)
  from Cons.prems(3) obtain w1 where s: "step x w = Inr w1" and r: "run xs w1 = Inr w'"
    by (auto split: sum.splits)
  from Cons.prems(1) have px: "count_in_int32 x" and pxs: "list_all count_in_int32 xs"
    by simp_all
  from step_exact [OF Cons.prems(2) px s] have e: "sint (wg w1) = sint (wg w) + delta x" .
  from step_Inr [OF s] have "0 \<le> sint (wg w1)" by simp
  from Cons.IH [OF pxs this r] e show ?case by simp
qed

lemma Done_panics: "wg w = 0 \<Longrightarrow> Done key w = Inl NegativeCounter"
  by (simp add: Done_def sync_Done_eq)

lemma run_nonneg: "0 \<le> sint (wg w) \<Longrightarrow> run xs w = Inr w' \<Longrightarrow> 0 \<le> sint (wg w')"
proof (induction xs arbitrary: w)
  case Nil
  then show ?case by simp
next
  case (Cons x xs)
  from Cons.prems(2) obtain w1 where s: "step x w = Inr w1" and r: "run xs w1 = Inr w'"
    by (auto split: sum.splits)
  from step_Inr [OF s] have "0 \<le> sint (wg w1)" by simp
  from Cons.IH [OF this r] show ?case .
qed

text \<open>
  C1, as it is stated: calling \<^verbatim>\<open>Done\<close> more often than the net sum of the counts
  given to \<^verbatim>\<open>Add\<close> is a panic. Only the lower 32 bits of a count reach the counter:
  \<^verbatim>\<open>Add(-4294967295)\<close> on a fresh group, called from line 10 of main.go, adds one to
  the counter, and the \<^verbatim>\<open>Done\<close> that follows returns, although the net sum of the
  run is far below zero.
\<close>

theorem Done_beyond_negative_Add_returns:
  "run [OpAdd ''main.go'' 10 (- 4294967295), OpDone ''main.go:10''] New = Inr New \<and>
   net [OpAdd ''main.go'' 10 (- 4294967295), OpDone ''main.go:10''] = - 4294967296"
  by (simp add: New_def Add_def Done_def sync_Add_def sync_Done_eq caller_key_def Let_def
                fmt_d_def digits.simps)

text \<open>
  C1, amended. In every run the counter is never negative, and \<^verbatim>\<open>Done\<close> on a counter
  of zero panics: nothing is clamped. As long as no count given to \<^verbatim>\<open>Add\<close> is below
  \<open>- 2 ^ 31\<close>, calling \<^verbatim>\<open>Done\<close> more often than the counts given to \<^verbatim>\<open>Add\<close>
  allow is a panic: a run with a prefix whose net count is negative panics, and a run
  that returns leaves a counter that is at most the net count, and zero when the net
  count is zero. When every count is in the range of \<^verbatim>\<open>int32\<close>, the counter is the
  net count.
\<close>

theorem Done_beyond_Add_panics:
  "(\<forall>w. run xs New = Inr w \<longrightarrow>
      0 \<le> sint (wg w) \<and>
      (wg w = 0 \<longrightarrow> (\<forall>key. Done key w = Inl NegativeCounter \<and>
                              run (xs @ [OpDone key]) New = Inl NegativeCounter))) \<and>
   (list_all count_not_below_int32 xs \<longrightarrow>
      ((\<exists>n\<le>length xs. net (take n xs) < 0) \<longrightarrow> run xs New = Inl NegativeCounter) \<and>
      (\<forall>w. run xs New = Inr w \<longrightarrow>
         sint (wg w) \<le> net xs \<and> (net xs = 0 \<longrightarrow> wg w = 0) \<and>
         (list_all count_in_int32 xs \<longrightarrow> sint (wg w) = net xs)))"
proof (intro conjI allI impI)
  fix w assume r: "run xs New = Inr w"
  from run_nonneg [OF _ r] show "0 \<le> sint (wg w)" by (simp add: New_def)
  fix key assume z: "wg w = 0"
  then show "Done key w = Inl NegativeCounter" by (rule Done_panics)
  with r show "run (xs @ [OpDone key]) New = Inl NegativeCounter"
    by (simp add: run_append)
next
  assume ok: "list_all count_not_below_int32 xs"
  assume "\<exists>n\<le>length xs. net (take n xs) < 0"
  then obtain n where n: "n \<le> length xs" "net (take n xs) < 0" by blast
  show "run xs New = Inl NegativeCounter"
  proof (cases "run xs New")
    case (Inl e)
    then show ?thesis by (simp add: panic_is_NegativeCounter [of e])
  next
    case (Inr w)
    from run_bound [OF ok _ Inr] n(1) have "0 \<le> net (take n xs)" by (simp add: New_def)
    with n(2) show ?thesis by simp
  qed
next
  fix w
  assume ok: "list_all count_not_below_int32 xs" and r: "run xs New = Inr w"
  from run_bound [OF ok _ r] have b: "0 \<le> sint (wg w)" "sint (wg w) \<le> net xs"
    by (simp_all add: New_def)
  from b show "sint (wg w) \<le> net xs" by simp
  show "wg w = 0" if "net xs = 0"
  proof -
    from b that have "sint (wg w) = sint (0 :: 32 word)" by simp
    then show ?thesis by (rule signed_word_eqI)
  qed
  show "sint (wg w) = net xs" if "list_all count_in_int32 xs"
    using run_exact [OF that _ r] by (simp add: New_def)
qed

theorem Done_beyond_Add_panics_witness:
  "list_all count_not_below_int32
     [OpAdd ''main.go'' 10 1, OpDone ''main.go:10'', OpDone ''main.go:10''] \<and>
   net (take 3 [OpAdd ''main.go'' 10 1, OpDone ''main.go:10'', OpDone ''main.go:10'']) < 0 \<and>
   run [OpAdd ''main.go'' 10 1, OpDone ''main.go:10'', OpDone ''main.go:10''] New
     = Inl NegativeCounter \<and>
   list_all count_in_int32 [OpAdd ''main.go'' 10 1, OpDone ''main.go:10''] \<and>
   run [OpAdd ''main.go'' 10 1, OpDone ''main.go:10''] New = Inr New \<and>
   sint (wg New) = net [OpAdd ''main.go'' 10 1, OpDone ''main.go:10''] \<and>
   wg New = 0 \<and> Done ''main.go:10'' New = Inl NegativeCounter"
proof -
  let ?a = "OpAdd ''main.go'' 10 1" and ?d = "OpDone ''main.go:10''"
  have ok3: "list_all count_not_below_int32 [?a, ?d, ?d]" by simp
  have p: "\<exists>n\<le>length [?a, ?d, ?d]. net (take n [?a, ?d, ?d]) < 0"
    by (intro exI [of _ 3]) simp
  have ok2: "list_all count_not_below_int32 [?a, ?d]" "list_all count_in_int32 [?a, ?d]"
    by simp_all
  have r: "run [?a, ?d] New = Inr New"
    by (simp add: New_def Add_def Done_def sync_Add_def sync_Done_eq caller_key_def Let_def
                  fmt_d_def digits.simps)
  have z: "wg New = 0" by (simp add: New_def)
  from Done_beyond_Add_panics [of "[?a, ?d, ?d]"] ok3 p
  have 1: "run [?a, ?d, ?d] New = Inl NegativeCounter" by blast
  from Done_beyond_Add_panics [of "[?a, ?d]"] ok2 r z
  have 2: "sint (wg New) = net [?a, ?d] \<and> Done ''main.go:10'' New = Inl NegativeCounter"
    by blast
  have 3: "net (take 3 [?a, ?d, ?d]) < 0" by simp
  from ok3 3 1 ok2 r 2 z show ?thesis by blast
qed

section \<open>The registry\<close>

text \<open>
  C2: \<^verbatim>\<open>Done\<close> with a key that is not in \<^verbatim>\<open>calls\<close> leaves \<^verbatim>\<open>calls\<close> as it is and
  takes one from the counter. The call panics when the counter it leaves is negative,
  as every \<^verbatim>\<open>Done\<close> does, which for a counter that is not negative means a counter of
  zero; otherwise it returns the group with the counter one lower and nothing else
  changed.
\<close>

theorem Done_unknown_key:
  "calls w key = None \<Longrightarrow>
   Done key w = (if sint (wg w - 1) < 0 then Inl NegativeCounter
                 else Inr (w\<lparr>wg := wg w - 1\<rparr>)) \<and>
   (\<forall>w'. Done key w = Inr w' \<longrightarrow> calls w' = calls w \<and> wg w' = wg w - 1) \<and>
   (0 \<le> sint (wg w) \<longrightarrow>
      Done key w = (if wg w = 0 then Inl NegativeCounter else Inr (w\<lparr>wg := wg w - 1\<rparr>)) \<and>
      sint (wg w - 1) = sint (wg w) - 1)"
proof (intro conjI allI impI)
  assume a: "calls w key = None"
  then show e: "Done key w = (if sint (wg w - 1) < 0 then Inl NegativeCounter
                 else Inr (w\<lparr>wg := wg w - 1\<rparr>))"
    by (simp add: Done_def sync_Done_eq)
  show "calls w' = calls w" "wg w' = wg w - 1" if "Done key w = Inr w'" for w'
    using that e by (auto split: if_splits)
  assume n: "0 \<le> sint (wg w)"
  from a sync_Done_nonneg [OF n]
  show "Done key w = (if wg w = 0 then Inl NegativeCounter else Inr (w\<lparr>wg := wg w - 1\<rparr>))"
    by (simp add: Done_def)
  from n show "sint (wg w - 1) = sint (wg w) - 1" by (rule sint_dec_32)
qed

theorem Done_unknown_key_witness:
  "calls \<lparr>wg = 2, calls = [''main.go:10'' \<mapsto> 2]\<rparr> ''other.go:3'' = None \<and>
   0 \<le> sint (wg \<lparr>wg = 2, calls = [''main.go:10'' \<mapsto> 2]\<rparr>) \<and>
   Done ''other.go:3'' \<lparr>wg = 2, calls = [''main.go:10'' \<mapsto> 2]\<rparr>
     = Inr \<lparr>wg = 1, calls = [''main.go:10'' \<mapsto> 2]\<rparr>"
proof -
  let ?w = "\<lparr>wg = 2, calls = [''main.go:10'' \<mapsto> 2]\<rparr>"
  have h: "calls ?w ''other.go:3'' = None" and n: "0 \<le> sint (wg ?w)" by simp_all
  from Done_unknown_key [OF h] n show ?thesis by simp
qed

text \<open>
  \<^verbatim>\<open>Done\<close> deletes an entry that is no longer positive, and \<^verbatim>\<open>Add\<close> with a positive
  count stores a positive entry: as long as every \<^verbatim>\<open>Add\<close> is given a positive count,
  and the counts together stay below \<open>2 ^ 63\<close>, every entry of the registry is
  positive.
\<close>

lemma added_nonneg: "list_all positive_count xs \<Longrightarrow> 0 \<le> added xs"
  by (induction xs rule: added.induct) simp_all

lemma added_Cons: "added (x # xs) = added [x] + added xs"
  by (cases x) simp_all

lemma step_keeps_within:
  assumes b: "0 \<le> b" and inv: "registry_within b w" and px: "positive_count x"
    and bound: "b + added [x] < 2 ^ 63" and s: "step x w = Inr w'"
  shows "registry_within (b + added [x]) w'"
proof (cases x)
  case (OpAdd f l i)
  with px have i: "0 < sint i" by simp
  let ?key = "caller_key f l" and ?o = "outstanding w (caller_key f l)"
  from s OpAdd have c: "calls w' = (calls w)(?key \<mapsto> ?o + i)"
    by (auto simp: Add_def sync_Add_def Let_def outstanding_def split: if_splits)
  have o: "0 \<le> sint ?o \<and> sint ?o \<le> b"
  proof (cases "calls w ?key")
    case None
    with b show ?thesis by (simp add: outstanding_def)
  next
    case (Some n)
    with inv have "0 < sint n \<and> sint n \<le> b" unfolding registry_within_def by blast
    with Some show ?thesis by (simp add: outstanding_def)
  qed
  from o i bound OpAdd have "sint (?o + i) = sint ?o + sint i"
    by (intro sint_add_64) simp_all
  with o i have e: "0 < sint (?o + i) \<and> sint (?o + i) \<le> b + sint i" by simp
  show ?thesis unfolding registry_within_def
  proof (intro allI impI)
    fix key n assume "calls w' key = Some n"
    with c have "(key = ?key \<and> n = ?o + i) \<or> calls w key = Some n"
      by (auto split: if_splits)
    then show "0 < sint n \<and> sint n \<le> b + added [x]"
    proof
      assume "key = ?key \<and> n = ?o + i"
      with e OpAdd show ?thesis by simp
    next
      assume "calls w key = Some n"
      with inv have "0 < sint n \<and> sint n \<le> b" unfolding registry_within_def by blast
      with i OpAdd show ?thesis by simp
    qed
  qed
next
  case (OpDone k)
  show ?thesis unfolding registry_within_def
  proof (intro allI impI)
    fix key n assume a: "calls w' key = Some n"
    from s OpDone have d: "Done k w = Inr w'" by simp
    show "0 < sint n \<and> sint n \<le> b + added [x]"
    proof (cases "key = k \<and> calls w k \<noteq> None")
      case True
      then obtain m where m: "calls w k = Some m" by blast
      with inv have pm: "0 < sint m \<and> sint m \<le> b" unfolding registry_within_def by blast
      from d m a True have "n = m - 1 \<and> \<not> sint (m - 1) \<le> 0"
        by (auto simp: Done_def sync_Done_eq split: if_splits)
      with pm sint_dec_64 [of m] OpDone show ?thesis by simp
    next
      case False
      with d a have "calls w key = Some n"
        by (auto simp: Done_def sync_Done_eq split: if_splits option.splits)
      with inv have "0 < sint n \<and> sint n \<le> b" unfolding registry_within_def by blast
      with OpDone show ?thesis by simp
    qed
  qed
qed

lemma run_keeps_within:
  "list_all positive_count xs \<Longrightarrow> 0 \<le> b \<Longrightarrow> registry_within b w \<Longrightarrow>
   b + added xs < 2 ^ 63 \<Longrightarrow> run xs w = Inr w' \<Longrightarrow> registry_within (b + added xs) w'"
proof (induction xs arbitrary: w b)
  case Nil
  then show ?case by simp
next
  case (Cons x xs)
  from Cons.prems(5) obtain w1 where s: "step x w = Inr w1" and r: "run xs w1 = Inr w'"
    by (auto split: sum.splits)
  from Cons.prems(1) have px: "positive_count x" and pxs: "list_all positive_count xs"
    by simp_all
  from added_nonneg [OF pxs] have n: "0 \<le> added xs" .
  from px have n1: "0 \<le> added [x]" by (cases x) simp_all
  from Cons.prems(4) have t: "b + added [x] + added xs < 2 ^ 63"
    by (simp add: added_Cons [of x xs])
  with n have b1: "b + added [x] < 2 ^ 63" by simp
  from step_keeps_within [OF Cons.prems(2,3) px b1 s]
  have i1: "registry_within (b + added [x]) w1" .
  from Cons.prems(2) n1 have "0 \<le> b + added [x]" by simp
  from Cons.IH [OF pxs this i1 t r] show ?case by (simp add: added_Cons [of x xs] add.assoc)
qed

lemma run_keeps_positive:
  assumes "list_all positive_count xs" "added xs < 2 ^ 63" "run xs New = Inr w"
  shows "registry_positive w"
proof -
  have "registry_within 0 New" by (simp add: registry_within_def New_def)
  from run_keeps_within [OF assms(1) _ this _ assms(3)] assms(2)
  have "registry_within (added xs) w" by simp
  then show ?thesis by (auto simp: registry_within_def registry_positive_def)
qed

text \<open>
  C3: in every group reached from a fresh one by calls of \<^verbatim>\<open>Add\<close> and \<^verbatim>\<open>Done\<close>,
  every key of \<^verbatim>\<open>calls\<close> has a positive count. \<^verbatim>\<open>Add\<close> does not keep to it:
  \<^verbatim>\<open>w.calls[key] += i\<close> stores the entry whatever its value, and \<^verbatim>\<open>Add(0)\<close> on a
  fresh group, called from line 10 of main.go, leaves that key in the registry with the
  count 0.
\<close>

theorem Add_zero_leaves_an_entry:
  "run [OpAdd ''main.go'' 10 0] New = Inr \<lparr>wg = 0, calls = [''main.go:10'' \<mapsto> 0]\<rparr> \<and>
   calls \<lparr>wg = 0, calls = [''main.go:10'' \<mapsto> 0]\<rparr> ''main.go:10'' = Some 0"
  by (simp add: New_def Add_def sync_Add_def caller_key_def Let_def fmt_d_def digits.simps)

lemma Add_returns_nonneg: "Add f l i w = Inr (key, w') \<Longrightarrow> 0 \<le> sint (wg w')"
  by (auto simp: Add_def sync_Add_def Let_def split: if_splits)

text \<open>
  C5, as it is stated: two calls of \<^verbatim>\<open>Add\<close> that return the same key leave one entry
  with the sum of their counts, and one \<^verbatim>\<open>Done\<close> with that key takes exactly one from
  it. After \<^verbatim>\<open>Add(1)\<close> from line 5 and two calls of \<^verbatim>\<open>Add(0)\<close> from line 10 of
  main.go, the entry of line 10 is 0, and \<^verbatim>\<open>Done\<close> with its key deletes the entry:
  the count of the key is 0 before and after. And after two calls of
  \<^verbatim>\<open>Add(4294967296)\<close> from line 10 on a fresh group the entry is 8589934592 while the
  counter is still 0, and \<^verbatim>\<open>Done\<close> panics.
\<close>

theorem Done_after_zero_counts_takes_nothing:
  "run [OpAdd ''main.go'' 5 1, OpAdd ''main.go'' 10 0, OpAdd ''main.go'' 10 0] New
     = Inr \<lparr>wg = 1, calls = [''main.go:5'' \<mapsto> 1, ''main.go:10'' \<mapsto> 0]\<rparr> \<and>
   Done ''main.go:10'' \<lparr>wg = 1, calls = [''main.go:5'' \<mapsto> 1, ''main.go:10'' \<mapsto> 0]\<rparr>
     = Inr \<lparr>wg = 0, calls = [''main.go:5'' \<mapsto> 1]\<rparr> \<and>
   outstanding \<lparr>wg = 1, calls = [''main.go:5'' \<mapsto> 1, ''main.go:10'' \<mapsto> 0]\<rparr> ''main.go:10'' = 0 \<and>
   outstanding \<lparr>wg = 0, calls = [''main.go:5'' \<mapsto> 1]\<rparr> ''main.go:10'' = 0 \<and>
   run [OpAdd ''main.go'' 10 4294967296, OpAdd ''main.go'' 10 4294967296] New
     = Inr \<lparr>wg = 0, calls = [''main.go:10'' \<mapsto> 8589934592]\<rparr> \<and>
   Done ''main.go:10'' \<lparr>wg = 0, calls = [''main.go:10'' \<mapsto> 8589934592]\<rparr>
     = Inl NegativeCounter"
  by (simp add: New_def Add_def Done_def sync_Add_def sync_Done_eq caller_key_def Let_def
                fmt_d_def digits.simps outstanding_def fun_upd_twist)

text \<open>
  C5, amended: two calls of \<^verbatim>\<open>Add\<close> that return the same key, with counts \<open>n1\<close> and
  \<open>n2\<close> whose sum in Go's \<^verbatim>\<open>int\<close> is positive, on a group that holds nothing for
  that key, leave one entry for it whose count is \<open>n1 + n2\<close>, the sum of the two
  numbers whenever that fits in 64 bits, and the other keys as they were. The next
  \<^verbatim>\<open>Done\<close> with the key panics when the counter is zero; otherwise it returns and
  takes exactly one from the count of the key: the entry becomes \<open>n1 + n2 - 1\<close>, and
  is deleted when that is zero.
\<close>

theorem same_key_counts_add_up:
  assumes a1: "Add f1 l1 n1 w = Inr (key, w1)"
      and a2: "Add f2 l2 n2 w1 = Inr (key, w2)"
      and fresh: "calls w key = None"
      and pos: "0 < sint (n1 + n2)"
  shows "calls w2 key = Some (n1 + n2) \<and> dom (calls w2) = insert key (dom (calls w)) \<and>
         (- (2 ^ 63) \<le> sint n1 + sint n2 \<and> sint n1 + sint n2 < 2 ^ 63 \<longrightarrow>
            sint (n1 + n2) = sint n1 + sint n2) \<and>
         Done key w2 =
           (if wg w2 = 0 then Inl NegativeCounter
            else Inr (w2\<lparr>wg := wg w2 - 1,
                         calls := (if sint (n1 + n2) = 1 then (calls w2)(key := None)
                                   else (calls w2)(key \<mapsto> n1 + n2 - 1))\<rparr>)) \<and>
         (\<forall>w3. Done key w2 = Inr w3 \<longrightarrow>
            outstanding w3 key = outstanding w2 key - 1 \<and>
            sint (outstanding w3 key) = sint (n1 + n2) - 1 \<and>
            (\<forall>k. k \<noteq> key \<longrightarrow> calls w3 k = calls w2 k))"
proof -
  from a1 have w1: "w1 = w\<lparr>wg := wg w1, calls := (calls w)(key \<mapsto> outstanding w key + n1)\<rparr>"
    by (auto simp: Add_def sync_Add_def Let_def outstanding_def split: if_splits)
  from a2 have w2: "w2 = w1\<lparr>wg := wg w2, calls := (calls w1)(key \<mapsto> outstanding w1 key + n2)\<rparr>"
    by (auto simp: Add_def sync_Add_def Let_def outstanding_def split: if_splits)
  from fresh have o: "outstanding w key = 0" by (simp add: outstanding_def)
  from w1 o have c1: "calls w1 = (calls w)(key \<mapsto> n1)"
    by (metis WaitGroup.select_convs(2) WaitGroup.surjective WaitGroup.update_convs(1,2) add_0)
  then have o1: "outstanding w1 key = n1" by (simp add: outstanding_def)
  from w2 o1 c1 have c2: "calls w2 = (calls w)(key \<mapsto> n1 + n2)"
    by (metis WaitGroup.select_convs(2) WaitGroup.surjective WaitGroup.update_convs(1,2) fun_upd_upd)
  from c2 have A: "calls w2 key = Some (n1 + n2)" by simp
  from c2 have B: "dom (calls w2) = insert key (dom (calls w))" by simp
  have C: "sint (n1 + n2) = sint n1 + sint n2"
    if "- (2 ^ 63) \<le> sint n1 + sint n2 \<and> sint n1 + sint n2 < 2 ^ 63"
    using that by (intro sint_add_64) simp_all
  from pos have d: "sint (n1 + n2 - 1) = sint (n1 + n2) - 1" by (rule sint_dec_64)
  from Add_returns_nonneg [OF a2] have n: "0 \<le> sint (wg w2)" .
  have D: "Done key w2 =
           (if wg w2 = 0 then Inl NegativeCounter
            else Inr (w2\<lparr>wg := wg w2 - 1,
                         calls := (if sint (n1 + n2) = 1 then (calls w2)(key := None)
                                   else (calls w2)(key \<mapsto> n1 + n2 - 1))\<rparr>))"
    using A pos d sync_Done_nonneg [OF n] by (auto simp: Done_def)
  have E: "outstanding w3 key = outstanding w2 key - 1 \<and>
           sint (outstanding w3 key) = sint (n1 + n2) - 1 \<and>
           (\<forall>k. k \<noteq> key \<longrightarrow> calls w3 k = calls w2 k)" if "Done key w2 = Inr w3" for w3
  proof (cases "sint (n1 + n2) = 1")
    case True
    then have "sint (n1 + n2) = sint (1 :: 64 word)" by simp
    then have "n1 + n2 = 1" by (rule signed_word_eqI)
    with that D A True show ?thesis by (auto simp: outstanding_def split: if_splits)
  next
    case False
    with that D A d show ?thesis by (auto simp: outstanding_def split: if_splits)
  qed
  from A B C D E show ?thesis by blast
qed

theorem same_key_counts_add_up_witness:
  "Add ''main.go'' 10 2 New = Inr (''main.go:10'', \<lparr>wg = 2, calls = [''main.go:10'' \<mapsto> 2]\<rparr>) \<and>
   Add ''main.go'' 10 3 \<lparr>wg = 2, calls = [''main.go:10'' \<mapsto> 2]\<rparr>
     = Inr (''main.go:10'', \<lparr>wg = 5, calls = [''main.go:10'' \<mapsto> 5]\<rparr>) \<and>
   calls New ''main.go:10'' = None \<and> 0 < sint (2 + 3 :: 64 word) \<and>
   Done ''main.go:10'' \<lparr>wg = 5, calls = [''main.go:10'' \<mapsto> 5]\<rparr>
     = Inr \<lparr>wg = 4, calls = [''main.go:10'' \<mapsto> 4]\<rparr>"
proof -
  let ?k = "''main.go:10''"
  let ?w1 = "\<lparr>wg = 2, calls = [?k \<mapsto> 2]\<rparr>" and ?w2 = "\<lparr>wg = 5, calls = [?k \<mapsto> 5]\<rparr>"
  have a1: "Add ''main.go'' 10 2 New = Inr (?k, ?w1)"
    by (simp add: New_def Add_def sync_Add_def caller_key_def Let_def fmt_d_def digits.simps)
  have a2: "Add ''main.go'' 10 3 ?w1 = Inr (?k, ?w2)"
    by (simp add: Add_def sync_Add_def caller_key_def Let_def fmt_d_def digits.simps)
  have fresh: "calls New ?k = None" by (simp add: New_def)
  have pos: "0 < sint (2 + 3 :: 64 word)" by simp
  from same_key_counts_add_up [OF a1 a2 fresh pos] a1 a2 fresh pos show ?thesis by simp
qed

text \<open>
  C4: \<^verbatim>\<open>Add(0)\<close> changes nothing that can be observed. The counter stays, but on a
  fresh group the call stores an entry of count 0 under the caller's key, and the dump,
  which wrote nothing before the call, writes the header and a line for that key after
  it.
\<close>

theorem Add_zero_changes_the_dump:
  "Add ''main.go'' 10 0 New = Inr (''main.go:10'', \<lparr>wg = 0, calls = [''main.go:10'' \<mapsto> 0]\<rparr>) \<and>
   calls \<lparr>wg = 0, calls = [''main.go:10'' \<mapsto> 0]\<rparr> \<noteq> calls New \<and>
   Logger (snd (LogNotDone [] New \<lparr>Logger = []\<rparr>)) = [] \<and>
   Logger (snd (LogNotDone [''main.go:10''] \<lparr>wg = 0, calls = [''main.go:10'' \<mapsto> 0]\<rparr>
                  \<lparr>Logger = []\<rparr>))
     = [header, '' main.go:10 (0 outstanding)'' @ [CHR 0x0A]]"
  by (simp add: New_def Add_def sync_Add_def caller_key_def Let_def fmt_d_def digits.simps
                LogNotDone_def Log_def entry_line_def)

section \<open>The dump\<close>

text \<open>
  On a registry that is not empty, \<^verbatim>\<open>LogNotDone\<close> adds to the logger the header and
  then one line for each key, in the order of the visit, with the count the registry
  holds for it.
\<close>

lemma log_entries_lines:
  "set ks \<subseteq> dom m \<Longrightarrow>
   Logger (log_entries m ks opts)
     = Logger opts @ map (\<lambda>key. entry_line key (sint (the (m key)))) ks"
  by (induction ks arbitrary: opts) (auto simp: Log_def)

lemma LogNotDone_lines:
  "range_order (calls w) ks \<Longrightarrow> calls w \<noteq> Map.empty \<Longrightarrow>
   Logger (snd (LogNotDone ks w opts)) =
     Logger opts @ header # map (\<lambda>key. entry_line key (sint (the (calls w key)))) ks"
  by (simp add: LogNotDone_def range_order_def log_entries_lines Log_def)

text \<open>
  C7: on a group whose registry is empty, and so on a fresh one, \<^verbatim>\<open>LogNotDone\<close>
  writes nothing to the logger, not even the header, whatever the logger held before.
\<close>

theorem LogNotDone_empty_registry:
  "(calls w = Map.empty \<longrightarrow> LogNotDone ks w opts = (w, opts)) \<and>
   LogNotDone ks New opts = (New, opts)"
  by (simp add: LogNotDone_def New_def)

theorem LogNotDone_empty_registry_witness:
  "calls \<lparr>wg = 3, calls = Map.empty\<rparr> = Map.empty \<and>
   LogNotDone [''a.go:1''] \<lparr>wg = 3, calls = Map.empty\<rparr> \<lparr>Logger = [''earlier'']\<rparr>
     = (\<lparr>wg = 3, calls = Map.empty\<rparr>, \<lparr>Logger = [''earlier'']\<rparr>)"
  using LogNotDone_empty_registry [of "\<lparr>wg = 3, calls = Map.empty\<rparr>" "[''a.go:1'']"
          "\<lparr>Logger = [''earlier'']\<rparr>"]
  by simp

text \<open>
  C10: \<^verbatim>\<open>LogNotDone\<close> only reads the group. After it, the counter and the registry,
  every key and every count, are what they were before, whatever was written.
\<close>

theorem LogNotDone_reads_only:
  "fst (LogNotDone ks w opts) = w \<and>
   wg (fst (LogNotDone ks w opts)) = wg w \<and>
   calls (fst (LogNotDone ks w opts)) = calls w"
  by (simp add: LogNotDone_def)

text \<open>
  C6: on a registry that is not empty the dump is the header and one line for each key
  with its count, and the keys dumped are those with a positive count. The dump writes
  a line for every key of \<^verbatim>\<open>calls\<close>, and after \<^verbatim>\<open>Add(1)\<close> from line 10 and
  \<^verbatim>\<open>Add(0)\<close> from line 20 of main.go the registry holds the second key with the
  count 0: the dump has a line for it, "0 outstanding".
\<close>

theorem LogNotDone_lists_zero_count:
  "run [OpAdd ''main.go'' 10 1, OpAdd ''main.go'' 20 0] New
     = Inr \<lparr>wg = 1, calls = [''main.go:10'' \<mapsto> 1, ''main.go:20'' \<mapsto> 0]\<rparr> \<and>
   range_order [''main.go:10'' \<mapsto> 1, ''main.go:20'' \<mapsto> 0] [''main.go:10'', ''main.go:20''] \<and>
   Logger (snd (LogNotDone [''main.go:10'', ''main.go:20'']
                  \<lparr>wg = 1, calls = [''main.go:10'' \<mapsto> 1, ''main.go:20'' \<mapsto> 0]\<rparr>
                  \<lparr>Logger = []\<rparr>))
     = [header, '' main.go:10 (1 outstanding)'' @ [CHR 0x0A],
        '' main.go:20 (0 outstanding)'' @ [CHR 0x0A]]"
  by (simp add: New_def Add_def sync_Add_def caller_key_def Let_def fmt_d_def digits.simps
                LogNotDone_def Log_def entry_line_def range_order_def insert_commute)

end
